theory Spec2Isabelle
  imports Main "HOL-Library.Word"
begin

unbundle bit_operations_syntax

section \<open>Bytes, Python strings and errors\<close>

text \<open>
  The development embeds the steganographic codec of the mobile variant
  (\<^verbatim>\<open>omnicon_termux.py\<close>: \<^verbatim>\<open>_xor\<close>, \<^verbatim>\<open>hide_msg\<close>, \<^verbatim>\<open>reveal_msg\<close>), which is
  self-contained: the bit loops are written out in the source. The desktop variant
  (\<^verbatim>\<open>omni-con3.py\<close>) shares \<^verbatim>\<open>_xor\<close> and the argument checks verbatim and hands the
  bit layer to an external library.

  A Python \<^verbatim>\<open>bytes\<close> value is a list of 8-bit words. A Python \<^verbatim>\<open>str\<close> is the list of
  its code points. Every exception the source can raise is a value of \<open>error\<close>; a
  function that can raise returns \<open>error + 'a\<close>, with \<open>Inl\<close> for the exception.
\<close>

type_synonym byte = "8 word"
type_synonym u32 = "32 word"
type_synonym pystr = "nat list"

datatype error =
    SourceNotImage \<comment> \<open>ValueError("Source must be an image (png, jpg, jpeg, bmp, webp).")\<close>
  | EmptyMessage \<comment> \<open>ValueError("Message cannot be empty.")\<close>
  | EmptyPassword \<comment> \<open>ValueError("Password cannot be empty.")\<close>
  | MessageTooLarge \<comment> \<open>ValueError("Message too large for image capacity.")\<close>
  | InputNotImage \<comment> \<open>ValueError("Input must be an image (png, jpg, jpeg, bmp, webp).")\<close>
  | DecryptionFailed error \<comment> \<open>ValueError(f"Decryption failed: {e}"), \<open>e\<close> the cause\<close>
  | UnicodeEncodeError \<comment> \<open>\<^verbatim>\<open>str.encode()\<close> on a lone surrogate\<close>
  | UnicodeDecodeError \<comment> \<open>\<^verbatim>\<open>bytes.decode()\<close> on ill-formed UTF-8\<close>
  | NonAsciiString \<comment> \<open>ValueError("string argument should contain only ASCII characters")\<close>
  | Base64Error \<comment> \<open>\<^verbatim>\<open>binascii.Error\<close>: bad padding or an impossible length\<close>
  | EmptyName \<comment> \<open>ValueError of \<^verbatim>\<open>Path.with_suffix\<close> on a path with an empty name\<close>
  | CannotOpenImage \<comment> \<open>\<^verbatim>\<open>Image.open\<close> finds no readable image at the path\<close>

section \<open>UTF-8 encoding: \<^verbatim>\<open>str.encode()\<close>\<close>

text \<open>
  \<^verbatim>\<open>str.encode()\<close> is UTF-8 with the strict error handler: one to four bytes per code
  point, and UnicodeEncodeError on a surrogate (U+D800 to U+DFFF). A Python \<^verbatim>\<open>str\<close> holds
  no code point above U+10FFFF; the model refuses such a number in the same way.
\<close>

definition utf8_enc_cp :: "nat \<Rightarrow> byte list option" where
  "utf8_enc_cp c =
    (if c < 0x80 then Some [of_nat c]
     else if c < 0x800 then Some [of_nat (0xC0 + c div 64), of_nat (0x80 + c mod 64)]
     else if c < 0x10000 then
       (if 0xD800 \<le> c \<and> c \<le> 0xDFFF then None
        else Some [of_nat (0xE0 + c div 4096), of_nat (0x80 + c div 64 mod 64),
                   of_nat (0x80 + c mod 64)])
     else if c < 0x110000 then
       Some [of_nat (0xF0 + c div 262144), of_nat (0x80 + c div 4096 mod 64),
             of_nat (0x80 + c div 64 mod 64), of_nat (0x80 + c mod 64)]
     else None)"

fun utf8_encode :: "pystr \<Rightarrow> error + byte list" where
  "utf8_encode [] = Inr []"
| "utf8_encode (c # cs) =
    (case utf8_enc_cp c of
       None \<Rightarrow> Inl UnicodeEncodeError
     | Some bs \<Rightarrow> (case utf8_encode cs of Inl e \<Rightarrow> Inl e | Inr rest \<Rightarrow> Inr (bs @ rest)))"

section \<open>SHA-256: \<^verbatim>\<open>hashlib.sha256(...).digest()\<close>\<close>

text \<open>
  The digest of the standard library, written out after FIPS 180-4: padding to a
  multiple of 64 bytes, the 64-word message schedule, 64 rounds of compression per
  block, the eight state words serialised big-endian.
\<close>

definition K256 :: "u32 list" where
  "K256 = [0x428A2F98, 0x71374491, 0xB5C0FBCF, 0xE9B5DBA5, 0x3956C25B, 0x59F111F1,
    0x923F82A4, 0xAB1C5ED5, 0xD807AA98, 0x12835B01, 0x243185BE, 0x550C7DC3, 0x72BE5D74,
    0x80DEB1FE, 0x9BDC06A7, 0xC19BF174, 0xE49B69C1, 0xEFBE4786, 0x0FC19DC6, 0x240CA1CC,
    0x2DE92C6F, 0x4A7484AA, 0x5CB0A9DC, 0x76F988DA, 0x983E5152, 0xA831C66D, 0xB00327C8,
    0xBF597FC7, 0xC6E00BF3, 0xD5A79147, 0x06CA6351, 0x14292967, 0x27B70A85, 0x2E1B2138,
    0x4D2C6DFC, 0x53380D13, 0x650A7354, 0x766A0ABB, 0x81C2C92E, 0x92722C85, 0xA2BFE8A1,
    0xA81A664B, 0xC24B8B70, 0xC76C51A3, 0xD192E819, 0xD6990624, 0xF40E3585, 0x106AA070,
    0x19A4C116, 0x1E376C08, 0x2748774C, 0x34B0BCB5, 0x391C0CB3, 0x4ED8AA4A, 0x5B9CCA4F,
    0x682E6FF3, 0x748F82EE, 0x78A5636F, 0x84C87814, 0x8CC70208, 0x90BEFFFA, 0xA4506CEB,
    0xBEF9A3F7, 0xC67178F2]"

type_synonym sha_state = "u32 \<times> u32 \<times> u32 \<times> u32 \<times> u32 \<times> u32 \<times> u32 \<times> u32"

definition H256 :: sha_state where
  "H256 = (0x6A09E667, 0xBB67AE85, 0x3C6EF372, 0xA54FF53A,
           0x510E527F, 0x9B05688C, 0x1F83D9AB, 0x5BE0CD19)"

definition rotr :: "nat \<Rightarrow> u32 \<Rightarrow> u32" where
  "rotr n x = drop_bit n x OR push_bit (32 - n) x"

definition be32 :: "byte list \<Rightarrow> u32" where
  "be32 bs = foldl (\<lambda>acc b. push_bit 8 acc OR ucast b) 0 bs"

definition word_bytes :: "u32 \<Rightarrow> byte list" where
  "word_bytes w = [ucast (drop_bit 24 w), ucast (drop_bit 16 w), ucast (drop_bit 8 w), ucast w]"

definition length_bytes :: "64 word \<Rightarrow> byte list" where
  "length_bytes n = map (\<lambda>s. ucast (drop_bit s n)) [56, 48, 40, 32, 24, 16, 8, 0]"

definition sha_pad :: "byte list \<Rightarrow> byte list" where
  "sha_pad m =
     m @ [0x80] @ replicate (nat ((55 - int (length m)) mod 64)) 0
       @ length_bytes (push_bit 3 (of_nat (length m)))"

fun chunks :: "nat \<Rightarrow> 'a list \<Rightarrow> 'a list list" where
  "chunks n [] = []"
| "chunks n (x # xs) =
    (if n = 0 then [] else take n (x # xs) # chunks n (drop n (x # xs)))"

text \<open>The schedule is kept newest word first: \<open>ws ! 1\<close> is \<open>W[t-2]\<close>, \<open>ws ! 15\<close> is \<open>W[t-16]\<close>.\<close>

fun schedule :: "nat \<Rightarrow> u32 list \<Rightarrow> u32 list" where
  "schedule 0 ws = ws"
| "schedule (Suc n) ws =
    (let w15 = ws ! 14; w2 = ws ! 1;
         s0 = rotr 7 w15 XOR rotr 18 w15 XOR drop_bit 3 w15;
         s1 = rotr 17 w2 XOR rotr 19 w2 XOR drop_bit 10 w2
     in schedule n ((ws ! 15 + s0 + ws ! 6 + s1) # ws))"

fun sha_round :: "sha_state \<Rightarrow> u32 \<times> u32 \<Rightarrow> sha_state" where
  "sha_round (a, b, c, d, e, f, g, h) (k, w) =
    (let S1 = rotr 6 e XOR rotr 11 e XOR rotr 25 e;
         ch = (e AND f) XOR (NOT e AND g);
         t1 = h + S1 + ch + k + w;
         S0 = rotr 2 a XOR rotr 13 a XOR rotr 22 a;
         mj = (a AND b) XOR (a AND c) XOR (b AND c);
         t2 = S0 + mj
     in (t1 + t2, a, b, c, d + t1, e, f, g))"

definition block_words :: "byte list \<Rightarrow> u32 list" where
  "block_words blk = rev (schedule 48 (rev (map be32 (chunks 4 blk))))"

fun add_state :: "sha_state \<Rightarrow> sha_state \<Rightarrow> sha_state" where
  "add_state (a, b, c, d, e, f, g, h) (a', b', c', d', e', f', g', h') =
     (a + a', b + b', c + c', d + d', e + e', f + f', g + g', h + h')"

definition compress :: "sha_state \<Rightarrow> byte list \<Rightarrow> sha_state" where
  "compress st blk = add_state st (foldl sha_round st (zip K256 (block_words blk)))"

fun state_bytes :: "sha_state \<Rightarrow> byte list" where
  "state_bytes (a, b, c, d, e, f, g, h) = concat (map word_bytes [a, b, c, d, e, f, g, h])"

definition sha256 :: "byte list \<Rightarrow> byte list" where
  "sha256 m = state_bytes (foldl compress H256 (chunks 64 (sha_pad m)))"

section \<open>The stream cipher: \<^verbatim>\<open>_xor\<close>\<close>

text \<open>
  \<open>py_xor\<close> is the source's \<^verbatim>\<open>_xor\<close> (an Isabelle name cannot start with an
  underscore).
  \<^verbatim>\<open>zip(data, itertools.cycle(key_b))\<close>: \<open>cycle\<close> hands out the elements of \<open>key_b\<close>
  and starts again from a saved copy once they are used up; \<open>zip\<close> stops with \<open>data\<close>
  (or at once when there is nothing to cycle). The second argument is what is left of
  the current pass.
\<close>

fun zip_cycle :: "'a list \<Rightarrow> 'b list \<Rightarrow> 'b list \<Rightarrow> ('a \<times> 'b) list" where
  "zip_cycle [] cur ks = []"
| "zip_cycle (d # ds) (c # cur) ks = (d, c) # zip_cycle ds cur ks"
| "zip_cycle (d # ds) [] ks =
    (case ks of [] \<Rightarrow> [] | k # ks' \<Rightarrow> (d, k) # zip_cycle ds ks' ks)"

definition xor_stream :: "byte list \<Rightarrow> byte list \<Rightarrow> byte list" where
  "xor_stream data key_b = map (\<lambda>(b, k). b XOR k) (zip_cycle data key_b key_b)"

definition py_xor :: "byte list \<Rightarrow> pystr \<Rightarrow> error + byte list" where
  "py_xor data key =
    (case utf8_encode key of
       Inl e \<Rightarrow> Inl e
     | Inr kb \<Rightarrow> Inr (xor_stream data (sha256 kb)))"

section \<open>UTF-8 decoding: \<^verbatim>\<open>bytes.decode()\<close>\<close>

text \<open>
  \<^verbatim>\<open>bytes.decode()\<close> is the strict UTF-8 decoder: it accepts exactly the well-formed
  sequences (no overlong form, no surrogate, nothing above U+10FFFF, every
  continuation byte in 0x80..0xBF) and raises UnicodeDecodeError on anything else.
\<close>

definition is_cont :: "byte \<Rightarrow> bool" where
  "is_cont b = (0x80 \<le> unat b \<and> unat b \<le> 0xBF)"

definition cont_val :: "byte \<Rightarrow> nat" where
  "cont_val b = unat b - 0x80"

fun cons_cp :: "nat \<Rightarrow> error + pystr \<Rightarrow> error + pystr" where
  "cons_cp c (Inl e) = Inl e"
| "cons_cp c (Inr cs) = Inr (c # cs)"

fun utf8_decode :: "byte list \<Rightarrow> error + pystr" where
  "utf8_decode [] = Inr []"
| "utf8_decode (b0 # bs) =
    (if unat b0 < 0x80 then cons_cp (unat b0) (utf8_decode bs)
     else if 0xC2 \<le> unat b0 \<and> unat b0 \<le> 0xDF then
       (case bs of
          b1 # r \<Rightarrow>
            if is_cont b1
            then cons_cp ((unat b0 - 0xC0) * 64 + cont_val b1) (utf8_decode r)
            else Inl UnicodeDecodeError
        | _ \<Rightarrow> Inl UnicodeDecodeError)
     else if 0xE0 \<le> unat b0 \<and> unat b0 \<le> 0xEF then
       (case bs of
          b1 # b2 # r \<Rightarrow>
            (let c = (unat b0 - 0xE0) * 4096 + cont_val b1 * 64 + cont_val b2
             in if is_cont b1 \<and> is_cont b2 \<and> 0x800 \<le> c \<and> \<not> (0xD800 \<le> c \<and> c \<le> 0xDFFF)
                then cons_cp c (utf8_decode r)
                else Inl UnicodeDecodeError)
        | _ \<Rightarrow> Inl UnicodeDecodeError)
     else if 0xF0 \<le> unat b0 \<and> unat b0 \<le> 0xF4 then
       (case bs of
          b1 # b2 # b3 # r \<Rightarrow>
            (let c = (unat b0 - 0xF0) * 262144 + cont_val b1 * 4096
                       + cont_val b2 * 64 + cont_val b3
             in if is_cont b1 \<and> is_cont b2 \<and> is_cont b3 \<and> 0x10000 \<le> c \<and> c < 0x110000
                then cons_cp c (utf8_decode r)
                else Inl UnicodeDecodeError)
        | _ \<Rightarrow> Inl UnicodeDecodeError)
     else Inl UnicodeDecodeError)"

section \<open>Base64: \<^verbatim>\<open>base64.b64encode\<close> and \<^verbatim>\<open>base64.b64decode\<close>\<close>

definition b64_alphabet :: "byte list" where
  "b64_alphabet = map (\<lambda>c. of_nat (of_char c))
     ''ABCDEFGHIJKLMNOPQRSTUVWXYZabcdefghijklmnopqrstuvwxyz0123456789+/''"

definition b64_pad :: byte where
  "b64_pad = 0x3D"

definition b2a :: "byte \<Rightarrow> byte" where
  "b2a v = b64_alphabet ! unat v"

definition a2b :: "byte \<Rightarrow> byte option" where
  "a2b ch = map_of (zip b64_alphabet (map of_nat [0..<64])) ch"

fun b64encode :: "byte list \<Rightarrow> byte list" where
  "b64encode [] = []"
| "b64encode [x] =
     [b2a (drop_bit 2 x), b2a (push_bit 4 (x AND 3)), b64_pad, b64_pad]"
| "b64encode [x, y] =
     [b2a (drop_bit 2 x), b2a (push_bit 4 (x AND 3) OR drop_bit 4 y),
      b2a (push_bit 2 (y AND 15)), b64_pad]"
| "b64encode (x # y # z # rest) =
     [b2a (drop_bit 2 x), b2a (push_bit 4 (x AND 3) OR drop_bit 4 y),
      b2a (push_bit 2 (y AND 15) OR drop_bit 6 z), b2a (z AND 63)] @ b64encode rest"

text \<open>
  \<^verbatim>\<open>binascii.a2b_base64\<close> in its default, non-strict mode (CPython 3.11 to 3.13):
  characters outside the alphabet are skipped; a pad character ends the input once
  the current quad holds two or more characters and the pads complete it, and is
  skipped otherwise; at the end of the input a quad left open is an error.
  \<open>quad_pos\<close>, \<open>leftchar\<close> and \<open>pads\<close> are the loop's variables.
\<close>

fun emit :: "byte \<Rightarrow> error + byte list \<Rightarrow> error + byte list" where
  "emit b (Inl e) = Inl e"
| "emit b (Inr bs) = Inr (b # bs)"

fun a2b_base64 :: "nat \<Rightarrow> byte \<Rightarrow> nat \<Rightarrow> byte list \<Rightarrow> error + byte list" where
  "a2b_base64 quad_pos leftchar pads [] =
     (if quad_pos \<noteq> 0 then Inl Base64Error else Inr [])"
| "a2b_base64 quad_pos leftchar pads (this_ch # rest) =
    (if this_ch = b64_pad then
       (if quad_pos \<ge> 2 then
          (if quad_pos + (pads + 1) \<ge> 4 then Inr []
           else a2b_base64 quad_pos leftchar (pads + 1) rest)
        else a2b_base64 quad_pos leftchar pads rest)
     else
       (case a2b this_ch of
          None \<Rightarrow> a2b_base64 quad_pos leftchar pads rest
        | Some v \<Rightarrow>
            (if quad_pos = 0 then a2b_base64 1 v 0 rest
             else if quad_pos = 1 then
               emit (push_bit 2 leftchar OR drop_bit 4 v) (a2b_base64 2 (v AND 0x0f) 0 rest)
             else if quad_pos = 2 then
               emit (push_bit 4 leftchar OR drop_bit 2 v) (a2b_base64 3 (v AND 0x03) 0 rest)
             else
               emit (push_bit 6 leftchar OR v) (a2b_base64 0 0 0 rest))))"

text \<open>
  \<^verbatim>\<open>base64.b64decode(s)\<close> on a \<^verbatim>\<open>str\<close>: the string is first encoded as ASCII, a
  ValueError if it holds a code point above 127. The cipher string is kept as the
  list of its character codes, all below 256.
\<close>

definition b64decode :: "byte list \<Rightarrow> error + byte list" where
  "b64decode s =
    (if list_ex (\<lambda>c. unat c > 127) s then Inl NonAsciiString else a2b_base64 0 0 0 s)"

section \<open>The cipher frame\<close>

text \<open>
  \<open>encrypt_msg\<close> is line 166 of \<^verbatim>\<open>hide_msg\<close>,
  \<^verbatim>\<open>base64.b64encode(_xor(msg.encode(), pwd)).decode()\<close>; the result is ASCII, one
  byte per character. \<open>decrypt_cipher\<close> is the \<^verbatim>\<open>try\<close> block that ends
  \<^verbatim>\<open>reveal_msg\<close>: any exception of \<^verbatim>\<open>_xor(base64.b64decode(cipher), pwd).decode()\<close>
  is raised again as ValueError("Decryption failed: ...").
\<close>

definition encrypt_msg :: "pystr \<Rightarrow> pystr \<Rightarrow> error + byte list" where
  "encrypt_msg msg pwd =
    (case utf8_encode msg of
       Inl e \<Rightarrow> Inl e
     | Inr data \<Rightarrow> (case py_xor data pwd of Inl e \<Rightarrow> Inl e | Inr x \<Rightarrow> Inr (b64encode x)))"

definition decrypt_cipher :: "byte list \<Rightarrow> pystr \<Rightarrow> error + pystr" where
  "decrypt_cipher cipher pwd =
    (case b64decode cipher of
       Inl e \<Rightarrow> Inl (DecryptionFailed e)
     | Inr raw \<Rightarrow>
        (case py_xor raw pwd of
           Inl e \<Rightarrow> Inl (DecryptionFailed e)
         | Inr plain \<Rightarrow>
            (case utf8_decode plain of
               Inl e \<Rightarrow> Inl (DecryptionFailed e)
             | Inr msg \<Rightarrow> Inr msg)))"

section \<open>Paths, images and the file store\<close>

text \<open>
  A \<^verbatim>\<open>pathlib.Path\<close> is its parent directory and the name of its final component.
  \<open>suffix\<close> and \<open>with_suffix\<close> follow \<^verbatim>\<open>PurePath\<close> (CPython up to 3.13): the suffix
  starts at the last dot of the name, unless that dot is the first or the last
  character. \<open>lower\<close> maps the ASCII capitals; no other character lowers to a letter
  of an extension in \<open>IMAGE_EXTS\<close>, so membership is decided as in Python.
\<close>

record path =
  parent :: string
  name :: string

fun rfind_dot :: "string \<Rightarrow> nat option" where
  "rfind_dot [] = None"
| "rfind_dot (c # cs) =
    (case rfind_dot cs of
       Some i \<Rightarrow> Some (Suc i)
     | None \<Rightarrow> if c = CHR ''.'' then Some 0 else None)"

definition suffix :: "path \<Rightarrow> string" where
  "suffix p =
    (case rfind_dot (name p) of
       None \<Rightarrow> []
     | Some i \<Rightarrow> if 0 < i \<and> i < length (name p) - 1 then drop i (name p) else [])"

definition with_suffix :: "path \<Rightarrow> string \<Rightarrow> error + path" where
  "with_suffix p sfx =
    (if name p = [] then Inl EmptyName
     else if suffix p = [] then Inr (p\<lparr>name := name p @ sfx\<rparr>)
     else Inr (p\<lparr>name := take (length (name p) - length (suffix p)) (name p) @ sfx\<rparr>))"

definition lower_char :: "char \<Rightarrow> char" where
  "lower_char c =
    (case map_of (zip ''ABCDEFGHIJKLMNOPQRSTUVWXYZ'' ''abcdefghijklmnopqrstuvwxyz'') c of
       Some l \<Rightarrow> l
     | None \<Rightarrow> c)"

definition lower :: "string \<Rightarrow> string" where
  "lower s = map lower_char s"

definition lstrip_dot :: "string \<Rightarrow> string" where
  "lstrip_dot s = dropWhile (\<lambda>c. c = CHR ''.'') s"

definition IMAGE_EXTS :: "string set" where
  "IMAGE_EXTS = {''png'', ''jpg'', ''jpeg'', ''bmp'', ''webp''}"

text \<open>\<^verbatim>\<open>p.suffix.lstrip(".").lower()\<close>, the extension every check looks at.\<close>

definition ext_of :: "path \<Rightarrow> string" where
  "ext_of p = lower (lstrip_dot (suffix p))"

text \<open>
  \<^verbatim>\<open>Image.open(p).convert("RGB")\<close> gives a width, a height and the pixel access object
  of \<^verbatim>\<open>img.load()\<close>, read and written as \<^verbatim>\<open>pixels[x, y]\<close> with three 8-bit channels.
  The file store maps a path to the format the file was written in and to the RGB
  image that opening it yields; \<^verbatim>\<open>img.save(p, format="PNG")\<close> stores the image
  losslessly. The progress bar and the log lines of the source have no part
  in any result and are left out.
\<close>

type_synonym pixel = "byte \<times> byte \<times> byte"

record image =
  width :: nat
  height :: nat
  pixels :: "nat \<times> nat \<Rightarrow> pixel"

datatype img_format = PNG | JPEG | BMP | WEBP

type_synonym fs = "path \<Rightarrow> (img_format \<times> image) option"

definition open_rgb :: "fs \<Rightarrow> path \<Rightarrow> error + image" where
  "open_rgb files p = (case files p of None \<Rightarrow> Inl CannotOpenImage | Some (f, img) \<Rightarrow> Inr img)"

section \<open>Embedding: \<^verbatim>\<open>hide_msg\<close>\<close>

text \<open>\<^verbatim>\<open>format(ord(c), '08b')\<close> for a character code below 256: eight bits, the highest first.\<close>

definition format_08b :: "byte \<Rightarrow> bool list" where
  "format_08b c = map (bit c) [7, 6, 5, 4, 3, 2, 1, 0]"

text \<open>\<^verbatim>\<open>bits = ''.join(format(ord(c), '08b') for c in cipher + '\0')\<close>\<close>

definition frame_bits :: "byte list \<Rightarrow> bool list" where
  "frame_bits cipher = concat (map format_08b (cipher @ [0]))"

text \<open>\<^verbatim>\<open>(r & ~1) | int(bit)\<close> on a channel value.\<close>

definition set_lsb :: "byte \<Rightarrow> bool \<Rightarrow> byte" where
  "set_lsb r b = (r AND NOT 1) OR (if b then 1 else 0)"

text \<open>One of the three guarded channel writes in the loop body.\<close>

definition put_bit :: "bool list \<Rightarrow> byte \<times> nat \<Rightarrow> byte \<times> nat" where
  "put_bit bits st =
    (case st of (ch, bit_idx) \<Rightarrow>
       if bit_idx < length bits then (set_lsb ch (bits ! bit_idx), bit_idx + 1)
       else (ch, bit_idx))"

text \<open>The body of the inner loop after its \<^verbatim>\<open>break\<close> test, for the pixel at \<open>(x, y)\<close>.\<close>

definition embed_pixel ::
  "bool list \<Rightarrow> nat \<Rightarrow> nat \<Rightarrow> (nat \<times> nat \<Rightarrow> pixel) \<times> nat \<Rightarrow> (nat \<times> nat \<Rightarrow> pixel) \<times> nat" where
  "embed_pixel bits x y st =
    (case st of (px, bit_idx) \<Rightarrow>
      (case px (x, y) of (r, g, b) \<Rightarrow>
        (case put_bit bits (r, bit_idx) of (r', i1) \<Rightarrow>
          (case put_bit bits (g, i1) of (g', i2) \<Rightarrow>
            (case put_bit bits (b, i2) of (b', i3) \<Rightarrow>
              (px((x, y) := (r', g', b')), i3))))))"

text \<open>
  \<^verbatim>\<open>for x in range(width)\<close> over the remaining columns \<open>xs\<close>: the \<^verbatim>\<open>break\<close> leaves this
  loop only, and the outer loop goes on to the next row.
\<close>

fun embed_row ::
  "bool list \<Rightarrow> nat \<Rightarrow> nat list \<Rightarrow> (nat \<times> nat \<Rightarrow> pixel) \<times> nat \<Rightarrow> (nat \<times> nat \<Rightarrow> pixel) \<times> nat" where
  "embed_row bits y [] st = st"
| "embed_row bits y (x # xs) st =
    (if snd st \<ge> length bits then st
     else embed_row bits y xs (embed_pixel bits x y st))"

fun embed_rows ::
  "bool list \<Rightarrow> nat \<Rightarrow> nat list \<Rightarrow> (nat \<times> nat \<Rightarrow> pixel) \<times> nat \<Rightarrow> (nat \<times> nat \<Rightarrow> pixel) \<times> nat" where
  "embed_rows bits w [] st = st"
| "embed_rows bits w (y # ys) st = embed_rows bits w ys (embed_row bits y [0..<w] st)"

definition embed :: "bool list \<Rightarrow> image \<Rightarrow> image" where
  "embed bits img =
     img\<lparr>pixels := fst (embed_rows bits (width img) [0..<height img] (pixels img, 0))\<rparr>"

text \<open>
  Lines 161 to 163: an output path whose extension is not an image extension gets
  the suffix \<^verbatim>\<open>.png\<close> in place of its own.
\<close>

definition output_path :: "path \<Rightarrow> error + path" where
  "output_path img_out =
    (if ext_of img_out \<notin> IMAGE_EXTS then with_suffix img_out ''.png'' else Inr img_out)"

text \<open>
  \<^verbatim>\<open>hide_msg(img_in, img_out, msg, pwd)\<close> returns nothing and writes one file. The model
  returns the path it saved to, or the exception, together with the file store after
  the call.
\<close>

definition hide_msg :: "fs \<Rightarrow> path \<Rightarrow> path \<Rightarrow> pystr \<Rightarrow> pystr \<Rightarrow> (error + path) \<times> fs" where
  "hide_msg files img_in img_out msg pwd =
    (if ext_of img_in \<notin> IMAGE_EXTS then (Inl SourceNotImage, files)
     else if msg = [] then (Inl EmptyMessage, files)
     else if pwd = [] then (Inl EmptyPassword, files)
     else
      (case output_path img_out of
         Inl e \<Rightarrow> (Inl e, files)
       | Inr out \<Rightarrow>
          (case encrypt_msg msg pwd of
             Inl e \<Rightarrow> (Inl e, files)
           | Inr cipher \<Rightarrow>
              (case open_rgb files img_in of
                 Inl e \<Rightarrow> (Inl e, files)
               | Inr img \<Rightarrow>
                  (let bits = frame_bits cipher;
                       max_bits = width img * height img * 3
                   in if length bits > max_bits then (Inl MessageTooLarge, files)
                      else (Inr out, files(out \<mapsto> (PNG, embed bits img))))))))"

section \<open>Extraction: \<^verbatim>\<open>reveal_msg\<close>\<close>

text \<open>
  The inner loop over the remaining columns \<open>xs\<close> of row \<open>y\<close>: three bits are appended
  per pixel, then the last eight collected bits are tested. The flag says whether
  the loop was left by \<^verbatim>\<open>break\<close>, which the \<^verbatim>\<open>for ... else: continue; break\<close> of the
  source turns into leaving the outer loop as well.
\<close>

definition lsb :: "byte \<Rightarrow> bool" where
  "lsb r = (r AND 1 = 1)"

fun scan_row ::
  "(nat \<times> nat \<Rightarrow> pixel) \<Rightarrow> nat \<Rightarrow> nat list \<Rightarrow> bool list \<Rightarrow> bool list \<times> bool" where
  "scan_row px y [] bits = (bits, False)"
| "scan_row px y (x # xs) bits =
    (case px (x, y) of (r, g, b) \<Rightarrow>
      (let bits' = bits @ [lsb r, lsb g, lsb b]
       in if length bits' \<ge> 8 \<and> drop (length bits' - 8) bits' = replicate 8 False
          then (take (length bits' - 8) bits', True)
          else scan_row px y xs bits'))"

fun scan_rows ::
  "(nat \<times> nat \<Rightarrow> pixel) \<Rightarrow> nat \<Rightarrow> nat list \<Rightarrow> bool list \<Rightarrow> bool list" where
  "scan_rows px w [] bits = bits"
| "scan_rows px w (y # ys) bits =
    (case scan_row px y [0..<w] bits of
       (bits', True) \<Rightarrow> bits'
     | (bits', False) \<Rightarrow> scan_rows px w ys bits')"

text \<open>\<^verbatim>\<open>chr(int(''.join(byte), 2))\<close> for eight bits.\<close>

definition byte_of_bits :: "bool list \<Rightarrow> byte" where
  "byte_of_bits bs = foldl (\<lambda>acc b. push_bit 1 acc OR (if b then 1 else 0)) 0 bs"

text \<open>The loop \<^verbatim>\<open>for i in range(0, len(bits), 8)\<close>: a last group shorter than 8 is dropped.\<close>

fun bits_to_chars :: "bool list \<Rightarrow> byte list" where
  "bits_to_chars bits =
    (if length bits < 8 then []
     else byte_of_bits (take 8 bits) # bits_to_chars (drop 8 bits))"

declare bits_to_chars.simps [simp del]

text \<open>Lines 212 to 235: the cipher string that the scan of the image produces.\<close>

definition extract_cipher :: "image \<Rightarrow> byte list" where
  "extract_cipher img =
     bits_to_chars (scan_rows (pixels img) (width img) [0..<height img] [])"

definition reveal_msg :: "fs \<Rightarrow> path \<Rightarrow> pystr \<Rightarrow> error + pystr" where
  "reveal_msg files img pwd =
    (if ext_of img \<notin> IMAGE_EXTS then Inl InputNotImage
     else if pwd = [] then Inl EmptyPassword
     else
      (case open_rgb files img of
         Inl e \<Rightarrow> Inl e
       | Inr im \<Rightarrow> decrypt_cipher (extract_cipher im) pwd))"

section \<open>Observing an image in raster order\<close>

text \<open>
  The channels of an image in the order both loops visit them: rows from the top,
  pixels from the left, red, green, blue within a pixel. Channel \<open>n\<close> belongs to pixel
  number \<open>n div 3\<close>, at column \<open>(n div 3) mod width\<close> of row \<open>(n div 3) div width\<close>.
  \<open>lsb_seq\<close> is the full sequence of least-significant bits, and \<open>aligned_chars\<close>
  reads it eight bits at a time from the start.
\<close>

definition channel :: "image \<Rightarrow> nat \<Rightarrow> byte" where
  "channel img n =
    (case pixels img ((n div 3) mod width img, (n div 3) div width img) of
       (r, g, b) \<Rightarrow> if n mod 3 = 0 then r else if n mod 3 = 1 then g else b)"

definition lsb_seq :: "image \<Rightarrow> bool list" where
  "lsb_seq img =
    concat (map (\<lambda>y. concat (map (\<lambda>x. case pixels img (x, y) of
                                        (r, g, b) \<Rightarrow> [lsb r, lsb g, lsb b])
                               [0..<width img]))
                [0..<height img])"

definition aligned_chars :: "image \<Rightarrow> byte list" where
  "aligned_chars img = bits_to_chars (lsb_seq img)"

text \<open>
  What the embedding loop is shown to compute: \<open>wr bits n c\<close> is channel value \<open>c\<close>
  after bit \<open>n\<close> of the stream, if there is one, has been written to it; \<open>emb\<close> is a
  pixel after its three channels were written; \<open>state_at\<close> is the pixel map once the
  first \<open>pos\<close> pixels in raster order have been visited.
\<close>

definition wr :: "bool list \<Rightarrow> nat \<Rightarrow> byte \<Rightarrow> byte" where
  "wr bits n c = (if n < length bits then set_lsb c (bits ! n) else c)"

definition emb :: "bool list \<Rightarrow> nat \<Rightarrow> (nat \<times> nat \<Rightarrow> pixel) \<Rightarrow> nat \<times> nat \<Rightarrow> pixel" where
  "emb bits w px0 p =
    (case p of (x, y) \<Rightarrow>
      (case px0 (x, y) of (r, g, b) \<Rightarrow>
        (wr bits (3 * (y * w + x)) r, wr bits (3 * (y * w + x) + 1) g,
         wr bits (3 * (y * w + x) + 2) b)))"

definition state_at :: "bool list \<Rightarrow> nat \<Rightarrow> (nat \<times> nat \<Rightarrow> pixel) \<Rightarrow> nat \<Rightarrow> nat \<times> nat \<Rightarrow> pixel" where
  "state_at bits w px0 pos p =
    (case p of (x, y) \<Rightarrow> if x < w \<and> y * w + x < pos then emb bits w px0 (x, y) else px0 (x, y))"

section \<open>Example inputs\<close>

text \<open>
  The scenario of the specification: a 10 by 10 image, the message \<^verbatim>\<open>hi\<close> (code points
  104, 105) and the passphrase \<^verbatim>\<open>pw\<close> (112, 119). The source image is white, every
  channel 255.
\<close>

definition src_png :: path where
  "src_png = \<lparr>parent = ''/sdcard'', name = ''in.png''\<rparr>"

definition out_png :: path where
  "out_png = \<lparr>parent = ''/sdcard'', name = ''out.png''\<rparr>"

definition white10 :: image where
  "white10 = \<lparr>width = 10, height = 10, pixels = (\<lambda>_. (255, 255, 255))\<rparr>"

definition store0 :: fs where
  "store0 = Map.empty(src_png \<mapsto> (PNG, white10))"

text \<open>
  Further inputs: a black cover image, the message \<^verbatim>\<open>ab#\<close> (97, 98, 35), output paths
  with other extensions, the stego image that \<^verbatim>\<open>ab#\<close> under \<^verbatim>\<open>pw\<close> leaves in the black
  image (its cipher text is \<^verbatim>\<open>Uatx\<close>: 85, 97, 116, 120), and an 11 by 1 image whose 33
  low bits are the 32 bits of the text \<^verbatim>\<open>WKA=\<close> followed by a one.
\<close>

definition black10 :: image where
  "black10 = \<lparr>width = 10, height = 10, pixels = (\<lambda>_. (0, 0, 0))\<rparr>"

definition store_black :: fs where
  "store_black = Map.empty(src_png \<mapsto> (PNG, black10))"

definition out_jpg :: path where
  "out_jpg = \<lparr>parent = ''/sdcard'', name = ''out.jpg''\<rparr>"

definition out_txt :: path where
  "out_txt = \<lparr>parent = ''/sdcard'', name = ''out.txt''\<rparr>"

definition stego_black :: image where
  "stego_black = embed (frame_bits [85, 97, 116, 120]) black10"

definition crafted_pixels :: "pixel list" where
  "crafted_pixels =
    [(200, 201, 200), (201, 200, 201), (201, 201, 200), (201, 200, 200), (201, 200, 201),
     (201, 200, 201), (200, 200, 200), (200, 200, 201), (200, 200, 201), (201, 201, 201),
     (200, 201, 201)]"

definition crafted11 :: image where
  "crafted11 = \<lparr>width = 11, height = 1,
     pixels = (\<lambda>(x, y). if x < 11 \<and> y = 0 then crafted_pixels ! x else (0, 0, 0))\<rparr>"

definition store_crafted :: fs where
  "store_crafted = Map.empty(src_png \<mapsto> (PNG, crafted11))"

text \<open>
  The extractor in the words of the specification, for comparison with
  \<open>extract_cipher\<close>: the collected bits are read as one character code after every
  eight; the first code that is zero ends the scan, and the characters before it are
  the result; without such a code there is no hidden data.
\<close>

definition spec_extract :: "image \<Rightarrow> byte list option" where
  "spec_extract img =
    (if list_ex (\<lambda>c. c = 0) (aligned_chars img)
     then Some (takeWhile (\<lambda>c. c \<noteq> 0) (aligned_chars img)) else None)"

section \<open>Properties of the stream cipher\<close>

lemma length_state_bytes: "length (state_bytes st) = 32"
  by (induction st rule: state_bytes.induct) (simp add: word_bytes_def)

lemma length_sha256: "length (sha256 m) = 32"
  by (simp add: sha256_def length_state_bytes)

lemma sha256_pw:
  "sha256 [0x70, 0x77] =
    [0x30, 0xc9, 0x52, 0xfa, 0xb1, 0x22, 0xc3, 0xf9, 0x75, 0x9f, 0x02, 0xa6,
     0xd9, 0x5c, 0x37, 0x58, 0xb2, 0x46, 0xb4, 0xfe, 0xe2, 0x39, 0x95, 0x7b,
     0x2d, 0x4f, 0xee, 0x46, 0xe2, 0x61, 0x70, 0xc4]"
  by code_simp

lemma length_zip_cycle: "ks \<noteq> [] \<Longrightarrow> length (zip_cycle ds cur ks) = length ds"
proof (induction ds arbitrary: cur)
  case Nil
  then show ?case by simp
next
  case (Cons d ds)
  then show ?case by (cases cur; cases ks) simp_all
qed

lemma zip_cycle_nth:
  "ks \<noteq> [] \<Longrightarrow> j \<le> length ks \<Longrightarrow> i < length ds \<Longrightarrow>
   zip_cycle ds (drop j ks) ks ! i = (ds ! i, ks ! ((j + i) mod length ks))"
proof (induction ds arbitrary: i j)
  case Nil
  then show ?case by simp
next
  case (Cons d ds)
  show ?case
  proof (cases "j < length ks")
    case True
    then have dr: "drop j ks = ks ! j # drop (Suc j) ks"
      by (simp add: Cons_nth_drop_Suc)
    show ?thesis
    proof (cases i)
      case 0
      with True dr show ?thesis by simp
    next
      case (Suc i')
      with Cons.prems have "i' < length ds" by simp
      from Cons.IH [OF Cons.prems(1) _ this, of "Suc j"] True
      show ?thesis using dr Suc by simp
    qed
  next
    case False
    with Cons.prems have j: "j = length ks" by simp
    obtain k ks' where ks: "ks = k # ks'" using Cons.prems(1) by (cases ks) auto
    have one: "drop 1 ks = ks'" by (simp add: ks)
    show ?thesis
    proof (cases i)
      case 0
      then show ?thesis using j ks by simp
    next
      case (Suc i')
      with Cons.prems have "i' < length ds" by simp
      from Cons.IH [OF Cons.prems(1) _ this, of 1] one
      have "zip_cycle ds ks' ks ! i' = (ds ! i', ks ! ((1 + i') mod length ks))"
        using ks by simp
      moreover have "(length ks + Suc i') mod length ks = Suc i' mod length ks"
        by (rule mod_add_self1)
      then have "(j + i) mod length ks = (1 + i') mod length ks"
        using j Suc by simp
      ultimately show ?thesis using j Suc ks by simp
    qed
  qed
qed

lemma length_xor_stream: "ks \<noteq> [] \<Longrightarrow> length (xor_stream ds ks) = length ds"
  by (simp add: xor_stream_def length_zip_cycle)

lemma xor_stream_nth:
  assumes "ks \<noteq> []" and "i < length ds"
  shows "xor_stream ds ks ! i = ds ! i XOR ks ! (i mod length ks)"
proof -
  have "zip_cycle ds ks ks ! i = (ds ! i, ks ! (i mod length ks))"
    using zip_cycle_nth [OF assms(1) _ assms(2), of 0] by simp
  then show ?thesis
    using assms by (simp add: xor_stream_def length_zip_cycle)
qed

lemma xor_stream_twice:
  assumes "ks \<noteq> []"
  shows "xor_stream (xor_stream ds ks) ks = ds"
proof (rule nth_equalityI)
  show "length (xor_stream (xor_stream ds ks) ks) = length ds"
    using assms by (simp add: length_xor_stream)
next
  fix i assume "i < length (xor_stream (xor_stream ds ks) ks)"
  then have i: "i < length ds" using assms by (simp add: length_xor_stream)
  then have "xor_stream (xor_stream ds ks) ks ! i
             = (ds ! i XOR ks ! (i mod length ks)) XOR ks ! (i mod length ks)"
    using assms by (simp add: xor_stream_nth length_xor_stream)
  then show "xor_stream (xor_stream ds ks) ks ! i = ds ! i"
    by (simp add: xor.assoc)
qed

lemma sha256_nonempty: "sha256 m \<noteq> []"
  using length_sha256 [of m] by auto

text \<open>
  Claim C6. For a passphrase that \<^verbatim>\<open>key.encode()\<close> accepts, with UTF-8 bytes \<open>kb\<close>,
  \<^verbatim>\<open>_xor(data, key)\<close> returns a byte string as long as \<open>data\<close> whose byte at every
  position \<open>i\<close> is \<open>data[i]\<close> XOR \<open>digest[i mod 32]\<close>, where \<open>digest\<close> is the SHA-256
  digest of \<open>kb\<close>, always 32 bytes long and a function of the passphrase alone.
\<close>

theorem xor_output_bytes:
  assumes "utf8_encode key = Inr kb"
  shows "\<exists>out. py_xor data key = Inr out \<and> length out = length data
           \<and> (\<forall>i < length data. out ! i = data ! i XOR sha256 kb ! (i mod 32))
           \<and> length (sha256 kb) = 32"
  using assms
  by (simp add: py_xor_def length_xor_stream sha256_nonempty xor_stream_nth length_sha256)

theorem xor_output_bytes_witness:
  "utf8_encode [112, 119] = Inr [0x70, 0x77]
   \<and> (\<exists>out. py_xor [1, 2, 3] [112, 119] = Inr out \<and> length out = length [1, 2, 3 :: byte]
          \<and> (\<forall>i < length [1, 2, 3 :: byte].
                 out ! i = [1, 2, 3] ! i XOR sha256 [0x70, 0x77] ! (i mod 32))
          \<and> length (sha256 [0x70, 0x77]) = 32)"
proof -
  have enc: "utf8_encode [112, 119] = Inr [0x70, 0x77]"
    by (simp add: utf8_enc_cp_def)
  from xor_output_bytes [OF enc, of "[1, 2, 3]"] enc show ?thesis by blast
qed

text \<open>
  Claim C7. \<^verbatim>\<open>_xor\<close> is self-inverse: for a passphrase that \<^verbatim>\<open>key.encode()\<close> accepts,
  \<^verbatim>\<open>_xor(_xor(data, key), key)\<close> is \<open>data\<close>. The function is pure: its result is a
  value computed from its two arguments and nothing else.
\<close>

theorem xor_self_inverse:
  assumes "utf8_encode key = Inr kb"
  shows "\<exists>c. py_xor data key = Inr c \<and> py_xor c key = Inr data"
  using assms by (simp add: py_xor_def xor_stream_twice sha256_nonempty)

theorem xor_self_inverse_witness:
  "utf8_encode [112, 119] = Inr [0x70, 0x77]
   \<and> (\<exists>c. py_xor [104, 105] [112, 119] = Inr c \<and> py_xor c [112, 119] = Inr [104, 105])"
proof -
  have enc: "utf8_encode [112, 119] = Inr [0x70, 0x77]"
    by (simp add: utf8_enc_cp_def)
  from xor_self_inverse [OF enc, of "[104, 105]"] enc show ?thesis by blast
qed

section \<open>Argument checks\<close>

lemma encrypt_msg_error: "encrypt_msg msg pwd = Inl e \<Longrightarrow> e = UnicodeEncodeError"
proof -
  have enc: "utf8_encode s = Inl e' \<Longrightarrow> e' = UnicodeEncodeError" for s e'
    by (induction s arbitrary: e') (auto split: option.splits sum.splits)
  assume "encrypt_msg msg pwd = Inl e"
  then show ?thesis
    by (auto simp: encrypt_msg_def py_xor_def split: sum.splits dest: enc)
qed

lemma output_path_error: "output_path p = Inl e \<Longrightarrow> e = EmptyName"
  by (auto simp: output_path_def with_suffix_def split: if_splits)

lemma open_rgb_error: "open_rgb files p = Inl e \<Longrightarrow> e = CannotOpenImage"
  by (auto simp: open_rgb_def split: option.splits)

lemma decrypt_cipher_error: "decrypt_cipher c pwd = Inl e \<Longrightarrow> \<exists>e'. e = DecryptionFailed e'"
  by (auto simp: decrypt_cipher_def split: sum.splits)

lemma hide_msg_checks_pass:
  assumes "msg \<noteq> []" and "pwd \<noteq> []"
  shows "fst (hide_msg files img_in img_out msg pwd) \<noteq> Inl EmptyMessage"
    and "fst (hide_msg files img_in img_out msg pwd) \<noteq> Inl EmptyPassword"
  using assms
  by (auto simp: hide_msg_def Let_def split: sum.splits
           dest: encrypt_msg_error output_path_error open_rgb_error)

lemma reveal_msg_check_passes:
  assumes "pwd \<noteq> []"
  shows "reveal_msg files img pwd \<noteq> Inl EmptyPassword"
  using assms
  by (auto simp: reveal_msg_def split: sum.splits
           dest: decrypt_cipher_error open_rgb_error)

text \<open>
  Claim C8. \<^verbatim>\<open>hide_msg\<close> rejects an empty message and an empty passphrase, and
  \<^verbatim>\<open>reveal_msg\<close> an empty passphrase, with a ValueError that is raised whatever the
  file store holds and leaves it as it was: no image is opened. The check of the
  source path's extension comes first, so with a source that is not an image the
  ValueError is the one about the source. For a non-empty message and a non-empty
  passphrase neither function raises the empty-message or the empty-password error.
\<close>

theorem empty_arguments_rejected:
  assumes "msg \<noteq> []" and "pwd \<noteq> []"
  shows "hide_msg files img_in img_out [] pwd' =
           (Inl (if ext_of img_in \<in> IMAGE_EXTS then EmptyMessage else SourceNotImage), files)
       \<and> hide_msg files img_in img_out msg [] =
           (Inl (if ext_of img_in \<in> IMAGE_EXTS then EmptyPassword else SourceNotImage), files)
       \<and> reveal_msg files img_in [] =
           Inl (if ext_of img_in \<in> IMAGE_EXTS then EmptyPassword else InputNotImage)
       \<and> fst (hide_msg files img_in img_out msg pwd) \<noteq> Inl EmptyMessage
       \<and> fst (hide_msg files img_in img_out msg pwd) \<noteq> Inl EmptyPassword
       \<and> reveal_msg files img_in pwd \<noteq> Inl EmptyPassword"
  using assms hide_msg_checks_pass [OF assms] reveal_msg_check_passes [OF assms(2)]
  by (simp add: hide_msg_def reveal_msg_def)

section \<open>The capacity check\<close>

lemma length_frame_bits: "length (frame_bits cipher) = 8 * length cipher + 8"
  by (induction cipher) (simp_all add: frame_bits_def format_08b_def)

text \<open>
  Claim C4. Once the arguments are accepted, the cipher text is computed and the
  source image is opened, \<^verbatim>\<open>hide_msg\<close> succeeds exactly when the framed bit stream,
  8 bits per cipher character and 8 sentinel bits, is at most \<open>width * height * 3\<close>
  bits long. A cipher text of exactly \<open>width * height * 3 - 8\<close> bits is embedded; a
  longer one is refused with the capacity error, and then the file store is the one
  before the call: nothing was written.
\<close>

theorem capacity_check:
  assumes "ext_of img_in \<in> IMAGE_EXTS" and "msg \<noteq> []" and "pwd \<noteq> []"
    and "output_path img_out = Inr out"
    and "encrypt_msg msg pwd = Inr cipher"
    and "open_rgb files img_in = Inr img"
  shows "hide_msg files img_in img_out msg pwd =
          (if 8 * length cipher + 8 \<le> width img * height img * 3
           then (Inr out, files(out \<mapsto> (PNG, embed (frame_bits cipher) img)))
           else (Inl MessageTooLarge, files))"
  using assms by (simp add: hide_msg_def Let_def length_frame_bits)

section \<open>The embedding loop\<close>

lemma put_bit_wr:
  "put_bit bits (c, i) = (wr bits i c, if i < length bits then i + 1 else i)"
  by (simp add: put_bit_def wr_def)

lemma raster_div: "x < w \<Longrightarrow> (y * w + x) div w = (y::nat)"
proof -
  assume a: "x < w"
  then have "w \<noteq> 0" by simp
  then have "(x + y * w) div w = y + x div w" by (rule div_mult_self1)
  with a show ?thesis by (simp add: add.commute)
qed

lemma raster_mod: "x < w \<Longrightarrow> (y * w + x) mod w = (x::nat)"
  by simp

lemma raster_inj:
  assumes "x < w" "x' < w" "y' * w + x' = y * w + x"
  shows "x' = x \<and> y' = (y::nat)"
  using raster_div [OF assms(1), of y] raster_div [OF assms(2), of y']
        raster_mod [OF assms(1), of y] raster_mod [OF assms(2), of y'] assms(3)
  by simp

lemma embed_pixel_emb:
  assumes "i = 3 * (y * w + x)" and "i < length bits"
  shows "embed_pixel bits x y (px, i) =
           (px((x, y) := emb bits w px (x, y)), min (length bits) (i + 3))"
  using assms
  by (cases "px (x, y)") (auto simp: embed_pixel_def put_bit_wr emb_def wr_def)

lemma state_at_step:
  assumes "x < w"
  shows "(state_at bits w px0 (y * w + x))((x, y) := emb bits w (state_at bits w px0 (y * w + x)) (x, y))
         = state_at bits w px0 (y * w + Suc x)"
proof (rule ext)
  fix p :: "nat \<times> nat"
  obtain x' y' where p: "p = (x', y')" by (cases p)
  have here: "state_at bits w px0 (y * w + x) (x, y) = px0 (x, y)"
    by (simp add: state_at_def)
  have e: "emb bits w (state_at bits w px0 (y * w + x)) (x, y) = emb bits w px0 (x, y)"
    by (simp add: emb_def here)
  show "((state_at bits w px0 (y * w + x))((x, y) := emb bits w (state_at bits w px0 (y * w + x)) (x, y))) p
         = state_at bits w px0 (y * w + Suc x) p"
  proof (cases "x' = x \<and> y' = y")
    case True
    then show ?thesis using assms by (simp add: p e state_at_def)
  next
    case False
    then have ne: "x' < w \<Longrightarrow> y' * w + x' \<noteq> y * w + x"
      using raster_inj [OF assms, of x' y'] by blast
    have "x' < w \<Longrightarrow> (y' * w + x' < y * w + Suc x) = (y' * w + x' < y * w + x)"
      using ne by auto
    then show ?thesis using False by (auto simp: p state_at_def)
  qed
qed

lemma state_at_saturated:
  assumes "length bits \<le> 3 * pos" and "pos \<le> pos'"
  shows "state_at bits w px0 pos' = state_at bits w px0 pos"
proof (rule ext)
  fix p :: "nat \<times> nat"
  obtain x y where p: "p = (x, y)" by (cases p)
  show "state_at bits w px0 pos' p = state_at bits w px0 pos p"
  proof (cases "x < w \<and> pos \<le> y * w + x \<and> y * w + x < pos'")
    case True
    then have "length bits \<le> 3 * (y * w + x)" using assms by simp
    then have "emb bits w px0 (x, y) = px0 (x, y)"
      by (cases "px0 (x, y)") (simp add: emb_def wr_def)
    then show ?thesis using True by (simp add: p state_at_def)
  next
    case False
    then show ?thesis using assms by (auto simp: p state_at_def)
  qed
qed

lemma embed_row_state:
  assumes "x0 \<le> w"
  shows "embed_row bits y [x0..<w]
           (state_at bits w px0 (y * w + x0), min (length bits) (3 * (y * w + x0)))
         = (state_at bits w px0 (y * w + w), min (length bits) (3 * (y * w + w)))"
  using assms
proof (induction "w - x0" arbitrary: x0)
  case 0
  then show ?case by simp
next
  case (Suc n)
  then have lt: "x0 < w" by simp
  then have up: "[x0..<w] = x0 # [Suc x0..<w]" by (simp add: upt_conv_Cons)
  show ?case
  proof (cases "length bits \<le> 3 * (y * w + x0)")
    case True
    then have "state_at bits w px0 (y * w + w) = state_at bits w px0 (y * w + x0)"
      using lt by (intro state_at_saturated) simp_all
    with True lt show ?thesis by (simp add: up min_def)
  next
    case False
    then have i: "min (length bits) (3 * (y * w + x0)) = 3 * (y * w + x0)"
      and il: "3 * (y * w + x0) < length bits" by simp_all
    have step: "embed_pixel bits x0 y (state_at bits w px0 (y * w + x0), 3 * (y * w + x0))
          = (state_at bits w px0 (y * w + Suc x0), min (length bits) (3 * (y * w + Suc x0)))"
      using embed_pixel_emb [OF refl il, of "state_at bits w px0 (y * w + x0)"]
            state_at_step [OF lt, of bits px0 y]
      by simp
    have n: "n = w - Suc x0" and le: "Suc x0 \<le> w" using Suc.hyps(2) lt by simp_all
    have "embed_row bits y [x0..<w]
            (state_at bits w px0 (y * w + x0), min (length bits) (3 * (y * w + x0)))
        = embed_row bits y [Suc x0..<w]
            (embed_pixel bits x0 y (state_at bits w px0 (y * w + x0), 3 * (y * w + x0)))"
      unfolding up i using il by simp
    also have "\<dots> = embed_row bits y [Suc x0..<w]
            (state_at bits w px0 (y * w + Suc x0), min (length bits) (3 * (y * w + Suc x0)))"
      by (simp only: step)
    also have "\<dots> = (state_at bits w px0 (y * w + w), min (length bits) (3 * (y * w + w)))"
      by (rule Suc.hyps(1) [OF n le])
    finally show ?thesis .
  qed
qed

lemma embed_rows_state:
  assumes "y0 \<le> h"
  shows "embed_rows bits w [y0..<h]
           (state_at bits w px0 (y0 * w), min (length bits) (3 * (y0 * w)))
         = (state_at bits w px0 (h * w), min (length bits) (3 * (h * w)))"
  using assms
proof (induction "h - y0" arbitrary: y0)
  case 0
  then show ?case by simp
next
  case (Suc n)
  then have lt: "y0 < h" by simp
  then have up: "[y0..<h] = y0 # [Suc y0..<h]" by (simp add: upt_conv_Cons)
  have row: "embed_row bits y0 [0..<w] (state_at bits w px0 (y0 * w), min (length bits) (3 * (y0 * w)))
       = (state_at bits w px0 (Suc y0 * w), min (length bits) (3 * (Suc y0 * w)))"
    using embed_row_state [of 0 w bits y0 px0] by (simp add: add.commute)
  have "n = h - Suc y0" and "Suc y0 \<le> h" using Suc.hyps(2) lt by simp_all
  from Suc.hyps(1) [OF this] show ?case
    by (simp only: up embed_rows.simps row)
qed

lemma state_at_0: "state_at bits w px0 0 = px0"
  by (rule ext) (simp add: state_at_def split: prod.splits)

lemma pixels_embed:
  "pixels (embed bits img) = state_at bits (width img) (pixels img) (height img * width img)"
  using embed_rows_state [of 0 "height img" bits "width img" "pixels img"]
  by (simp add: embed_def state_at_0)

lemma pixels_embed_inside:
  assumes "x < width img" and "y < height img"
  shows "pixels (embed bits img) (x, y) = emb bits (width img) (pixels img) (x, y)"
proof -
  have "y * width img + x < Suc y * width img" using assms(1) by simp
  also have "\<dots> \<le> height img * width img"
    using assms(2) by (intro mult_le_mono1) simp
  finally show ?thesis using assms(1) by (simp add: pixels_embed state_at_def)
qed

lemma pixels_embed_outside:
  assumes "\<not> (x < width img \<and> y < height img)"
  shows "pixels (embed bits img) (x, y) = pixels img (x, y)"
proof (cases "x < width img")
  case True
  with assms have "height img \<le> y" by simp
  then have "height img * width img \<le> y * width img" by (rule mult_le_mono1)
  then have "\<not> y * width img + x < height img * width img" by linarith
  then show ?thesis by (simp add: pixels_embed state_at_def)
next
  case False
  then show ?thesis by (simp add: pixels_embed state_at_def)
qed

lemma bit_set_lsb: "0 < k \<Longrightarrow> bit (set_lsb c b) k = bit c k"
  by (cases k) (auto simp: set_lsb_def bit_simps dest: bit_imp_le_length)

lemma bit_set_lsb_0: "bit (set_lsb c b) 0 = b"
  by (simp add: set_lsb_def bit_simps)


lemma channel_embed:
  assumes "n < width img * height img * 3"
  shows "channel (embed bits img) n = wr bits n (channel img n)"
proof -
  define w where "w = width img"
  define q where "q = n div 3"
  have q: "q < w * height img" using assms by (simp add: q_def w_def)
  then have w0: "0 < w" by (cases w) simp_all
  have x: "q mod w < w" using w0 by simp
  have y: "q div w < height img"
    using q by (simp add: less_mult_imp_div_less mult.commute)
  have pos: "q div w * w + q mod w = q" by simp
  have n: "n = 3 * q + n mod 3" by (simp add: q_def)
  have wd: "width (embed bits img) = w" by (simp add: embed_def w_def)
  obtain r g b where fields: "pixels img (q mod w, q div w) = (r, g, b)"
    by (cases "pixels img (q mod w, q div w)")
  have E: "emb bits w (pixels img) (q mod w, q div w)
            = (wr bits (3 * q) r, wr bits (3 * q + 1) g, wr bits (3 * q + 2) b)"
    by (simp only: emb_def prod.case fields pos)
  have "pixels (embed bits img) (q mod w, q div w) = emb bits w (pixels img) (q mod w, q div w)"
    using pixels_embed_inside [of "q mod w" img "q div w" bits] x y by (simp add: w_def)
  then have che: "channel (embed bits img) n =
      (if n mod 3 = 0 then wr bits (3 * q) r
       else if n mod 3 = 1 then wr bits (3 * q + 1) g else wr bits (3 * q + 2) b)"
    by (simp add: channel_def wd q_def [symmetric] E)
  have ch: "channel img n = (if n mod 3 = 0 then r else if n mod 3 = 1 then g else b)"
    by (simp add: channel_def q_def [symmetric] w_def [symmetric] fields)
  consider (zero) "n mod 3 = 0" | (one) "n mod 3 = 1" | (two) "n mod 3 = 2" by arith
  then show ?thesis
  proof cases
    case zero
    with n have "3 * q = n" by simp
    with zero show ?thesis by (simp add: che ch)
  next
    case one
    with n have "3 * q + 1 = n" by simp
    with one show ?thesis by (simp add: che ch)
  next
    case two
    with n have "3 * q + 2 = n" by simp
    with two show ?thesis by (simp add: che ch)
  qed
qed

lemma hide_msg_success:
  assumes "hide_msg files img_in img_out msg pwd = (Inr out, files')"
  shows "\<exists>cipher img. encrypt_msg msg pwd = Inr cipher \<and> open_rgb files img_in = Inr img
           \<and> output_path img_out = Inr out
           \<and> files' = files(out \<mapsto> (PNG, embed (frame_bits cipher) img))"
  using assms
  by (auto simp: hide_msg_def Let_def split: if_splits sum.splits)

text \<open>
  Claim C5. After a successful \<^verbatim>\<open>hide_msg\<close> the saved image has the size of the source
  image, and for every channel \<open>n\<close> in raster order: every bit but the lowest is the
  source's; below the length of the bit stream the lowest bit is bit \<open>n\<close> of the
  stream; from the length of the bit stream on the channel is the source's channel,
  unchanged.
\<close>

theorem embed_changes_only_lsb_prefix:
  assumes "hide_msg files img_in img_out msg pwd = (Inr out, files')"
    and "open_rgb files img_in = Inr img"
    and "encrypt_msg msg pwd = Inr cipher"
  shows "\<exists>img'. files' out = Some (PNG, img')
          \<and> width img' = width img \<and> height img' = height img
          \<and> (\<forall>n < width img * height img * 3.
                (\<forall>k. 0 < k \<longrightarrow> bit (channel img' n) k = bit (channel img n) k)
              \<and> (n < length (frame_bits cipher) \<longrightarrow>
                    bit (channel img' n) 0 = frame_bits cipher ! n)
              \<and> (length (frame_bits cipher) \<le> n \<longrightarrow> channel img' n = channel img n))"
proof -
  from hide_msg_success [OF assms(1)] assms(2,3)
  have f: "files' = files(out \<mapsto> (PNG, embed (frame_bits cipher) img))" by auto
  have "\<forall>n < width img * height img * 3.
          (\<forall>k. 0 < k \<longrightarrow> bit (channel (embed (frame_bits cipher) img) n) k = bit (channel img n) k)
        \<and> (n < length (frame_bits cipher) \<longrightarrow>
              bit (channel (embed (frame_bits cipher) img) n) 0 = frame_bits cipher ! n)
        \<and> (length (frame_bits cipher) \<le> n \<longrightarrow>
              channel (embed (frame_bits cipher) img) n = channel img n)"
    by (simp add: channel_embed wr_def bit_set_lsb bit_set_lsb_0)
  then show ?thesis by (simp add: f embed_def)
qed

section \<open>The output file\<close>

text \<open>
  Claim C10. Whenever \<^verbatim>\<open>hide_msg\<close> of the mobile variant succeeds, the file it wrote
  is PNG data. The path it wrote to is the requested one when the requested
  extension is one of png, jpg, jpeg, bmp, webp (so a file named \<^verbatim>\<open>.jpg\<close> holds PNG
  data), and otherwise the requested path with its suffix replaced by \<^verbatim>\<open>.png\<close>.
\<close>

theorem output_is_png:
  assumes "hide_msg files img_in img_out msg pwd = (Inr out, files')"
  shows "(\<exists>img'. files' out = Some (PNG, img'))
       \<and> out = (if ext_of img_out \<in> IMAGE_EXTS then img_out
                else img_out\<lparr>name :=
                  take (length (name img_out) - length (suffix img_out)) (name img_out)
                    @ ''.png''\<rparr>)"
proof -
  from hide_msg_success [OF assms] obtain cipher img where
    o: "output_path img_out = Inr out"
    and f: "files' = files(out \<mapsto> (PNG, embed (frame_bits cipher) img))" by auto
  from o have "out = (if ext_of img_out \<in> IMAGE_EXTS then img_out
                else img_out\<lparr>name :=
                  take (length (name img_out) - length (suffix img_out)) (name img_out)
                    @ ''.png''\<rparr>)"
    by (auto simp: output_path_def with_suffix_def split: if_splits)
  with f show ?thesis by simp
qed

section \<open>The example scenario, evaluated\<close>

lemma utf8_encode_pw: "utf8_encode [112, 119] = Inr [0x70, 0x77]"
  by (simp add: utf8_enc_cp_def)

lemma utf8_encode_hi: "utf8_encode [104, 105] = Inr [0x68, 0x69]"
  by (simp add: utf8_enc_cp_def)

lemma py_xor_pw:
  "py_xor data [112, 119] = Inr (xor_stream data
    [0x30, 0xc9, 0x52, 0xfa, 0xb1, 0x22, 0xc3, 0xf9, 0x75, 0x9f, 0x02, 0xa6,
     0xd9, 0x5c, 0x37, 0x58, 0xb2, 0x46, 0xb4, 0xfe, 0xe2, 0x39, 0x95, 0x7b,
     0x2d, 0x4f, 0xee, 0x46, 0xe2, 0x61, 0x70, 0xc4])"
  unfolding py_xor_def utf8_encode_pw by (simp add: sha256_pw)

lemma encrypt_hi_pw: "encrypt_msg [104, 105] [112, 119] = Inr [87, 75, 65, 61]"
proof -
  have "b64encode (xor_stream [0x68, 0x69]
    [0x30, 0xc9, 0x52, 0xfa, 0xb1, 0x22, 0xc3, 0xf9, 0x75, 0x9f, 0x02, 0xa6,
     0xd9, 0x5c, 0x37, 0x58, 0xb2, 0x46, 0xb4, 0xfe, 0xe2, 0x39, 0x95, 0x7b,
     0x2d, 0x4f, 0xee, 0x46, 0xe2, 0x61, 0x70, 0xc4]) = [87, 75, 65, 61]"
    by code_simp
  then show ?thesis
    unfolding encrypt_msg_def utf8_encode_hi by (simp add: py_xor_pw)
qed

lemma ext_of_src_png: "ext_of src_png \<in> IMAGE_EXTS"
  by (simp add: src_png_def ext_of_def suffix_def lower_def lower_char_def lstrip_dot_def
        IMAGE_EXTS_def)

lemma output_path_out_png: "output_path out_png = Inr out_png"
  by (simp add: out_png_def output_path_def ext_of_def suffix_def lower_def lower_char_def
        lstrip_dot_def IMAGE_EXTS_def)

lemma open_store0: "open_rgb store0 src_png = Inr white10"
  by (simp add: open_rgb_def store0_def)

theorem empty_arguments_rejected_witness:
  "[104, 105] \<noteq> ([] :: pystr) \<and> [112, 119] \<noteq> ([] :: pystr)
   \<and> hide_msg store0 src_png out_png [] [112, 119] = (Inl EmptyMessage, store0)
   \<and> hide_msg store0 src_png out_png [104, 105] [] = (Inl EmptyPassword, store0)
   \<and> reveal_msg store0 src_png [] = Inl EmptyPassword
   \<and> fst (hide_msg store0 src_png out_png [104, 105] [112, 119]) \<noteq> Inl EmptyMessage
   \<and> fst (hide_msg store0 src_png out_png [104, 105] [112, 119]) \<noteq> Inl EmptyPassword
   \<and> reveal_msg store0 src_png [112, 119] \<noteq> Inl EmptyPassword"
proof -
  have m: "[104, 105] \<noteq> ([] :: pystr)" and p: "[112, 119] \<noteq> ([] :: pystr)"
    by simp_all
  from empty_arguments_rejected [OF m p, of store0 src_png out_png "[112, 119]"]
  show ?thesis by (simp add: ext_of_src_png)
qed

theorem capacity_check_witness:
  "ext_of src_png \<in> IMAGE_EXTS \<and> [104, 105] \<noteq> ([] :: pystr) \<and> [112, 119] \<noteq> ([] :: pystr)
   \<and> output_path out_png = Inr out_png
   \<and> encrypt_msg [104, 105] [112, 119] = Inr [87, 75, 65, 61]
   \<and> open_rgb store0 src_png = Inr white10
   \<and> hide_msg store0 src_png out_png [104, 105] [112, 119] =
       (Inr out_png, store0(out_png \<mapsto> (PNG, embed (frame_bits [87, 75, 65, 61]) white10)))"
proof -
  have m: "[104, 105] \<noteq> ([] :: pystr)" and p: "[112, 119] \<noteq> ([] :: pystr)"
    by simp_all
  have "width white10 * height white10 * 3 = 300"
    by (simp add: white10_def)
  with capacity_check [OF ext_of_src_png m p output_path_out_png encrypt_hi_pw open_store0]
  have "hide_msg store0 src_png out_png [104, 105] [112, 119] =
       (Inr out_png, store0(out_png \<mapsto> (PNG, embed (frame_bits [87, 75, 65, 61]) white10)))"
    by simp
  then show ?thesis
    using ext_of_src_png output_path_out_png encrypt_hi_pw open_store0 by simp
qed

lemma ext_of_out_png: "ext_of out_png \<in> IMAGE_EXTS"
  by (simp add: out_png_def ext_of_def suffix_def lower_def lower_char_def lstrip_dot_def
        IMAGE_EXTS_def)

lemma output_path_out_jpg: "output_path out_jpg = Inr out_jpg"
  by (simp add: out_jpg_def output_path_def ext_of_def suffix_def lower_def lower_char_def
        lstrip_dot_def IMAGE_EXTS_def)

lemma ext_of_out_jpg: "ext_of out_jpg \<in> IMAGE_EXTS"
  by (simp add: out_jpg_def ext_of_def suffix_def lower_def lower_char_def lstrip_dot_def
        IMAGE_EXTS_def)

lemma ext_of_out_txt: "ext_of out_txt \<notin> IMAGE_EXTS"
  by (simp add: out_txt_def ext_of_def suffix_def lower_def lower_char_def lstrip_dot_def
        IMAGE_EXTS_def)

lemma output_path_out_txt: "output_path out_txt = Inr out_png"
  by (simp add: output_path_def ext_of_out_txt with_suffix_def)
     (simp add: out_txt_def out_png_def suffix_def)

lemma hide_white10:
  assumes "output_path p = Inr q"
  shows "hide_msg store0 src_png p [104, 105] [112, 119] =
          (Inr q, store0(q \<mapsto> (PNG, embed (frame_bits [87, 75, 65, 61]) white10)))"
proof -
  have "width white10 = 10" and "height white10 = 10"
    by (simp_all add: white10_def)
  then show ?thesis
    by (simp add: hide_msg_def ext_of_src_png assms encrypt_hi_pw open_store0 Let_def
          length_frame_bits)
qed

lemma encrypt_ab_pw: "encrypt_msg [97, 98, 35] [112, 119] = Inr [85, 97, 116, 120]"
proof -
  have e: "utf8_encode [97, 98, 35] = Inr [0x61, 0x62, 0x23]"
    by (simp add: utf8_enc_cp_def)
  have "b64encode (xor_stream [0x61, 0x62, 0x23]
    [0x30, 0xc9, 0x52, 0xfa, 0xb1, 0x22, 0xc3, 0xf9, 0x75, 0x9f, 0x02, 0xa6,
     0xd9, 0x5c, 0x37, 0x58, 0xb2, 0x46, 0xb4, 0xfe, 0xe2, 0x39, 0x95, 0x7b,
     0x2d, 0x4f, 0xee, 0x46, 0xe2, 0x61, 0x70, 0xc4]) = [85, 97, 116, 120]"
    by code_simp
  then show ?thesis
    unfolding encrypt_msg_def e by (simp add: py_xor_pw)
qed

lemma hide_black10:
  "hide_msg store_black src_png out_png [97, 98, 35] [112, 119] =
     (Inr out_png, store_black(out_png \<mapsto> (PNG, stego_black)))"
proof -
  have "width black10 = 10" and "height black10 = 10"
    by (simp_all add: black10_def)
  moreover have "open_rgb store_black src_png = Inr black10"
    by (simp add: open_rgb_def store_black_def)
  ultimately show ?thesis
    by (simp add: hide_msg_def ext_of_src_png output_path_out_png encrypt_ab_pw Let_def
          length_frame_bits stego_black_def)
qed

lemma extract_white_stego:
  "extract_cipher (embed (frame_bits [87, 75, 65, 61]) white10)
     = [87, 75, 65, 61, 0] @ replicate 32 255"
  by code_simp

lemma b64decode_white_stego:
  "b64decode ([87, 75, 65, 61, 0] @ replicate 32 255) = Inl NonAsciiString"
  by code_simp

lemma extract_black_stego: "extract_cipher stego_black = [85, 97, 116]"
  by code_simp

lemma b64decode_truncated: "b64decode [85, 97, 116] = Inl Base64Error"
  by code_simp

text \<open>
  Claim C1, evaluated where it fails. The message \<^verbatim>\<open>hi\<close> under \<^verbatim>\<open>pw\<close> is embedded into
  the white 10 by 10 image (40 of 300 bits), and \<^verbatim>\<open>reveal_msg\<close> on the saved file with
  the same passphrase raises "Decryption failed": the 40 bits end inside pixel 13,
  whose last two low bits are still those of the cover image, so the test of the last
  eight bits after that pixel does not see the sentinel. The message \<^verbatim>\<open>ab#\<close> under \<^verbatim>\<open>pw\<close>
  is embedded into the black image, and \<^verbatim>\<open>reveal_msg\<close> raises "Decryption failed" too:
  the cipher text ends in \<^verbatim>\<open>x\<close>, whose three low zero bits complete eight zeros one
  pixel early, and the last cipher character is lost.
\<close>

theorem round_trip_fails:
  "fst (hide_msg store0 src_png out_png [104, 105] [112, 119]) = Inr out_png
   \<and> reveal_msg (snd (hide_msg store0 src_png out_png [104, 105] [112, 119])) out_png
        [112, 119] = Inl (DecryptionFailed NonAsciiString)
   \<and> fst (hide_msg store_black src_png out_png [97, 98, 35] [112, 119]) = Inr out_png
   \<and> reveal_msg (snd (hide_msg store_black src_png out_png [97, 98, 35] [112, 119])) out_png
        [112, 119] = Inl (DecryptionFailed Base64Error)"
proof -
  have "reveal_msg (store0(out_png \<mapsto> (PNG, embed (frame_bits [87, 75, 65, 61]) white10)))
          out_png [112, 119] = Inl (DecryptionFailed NonAsciiString)"
    by (simp add: reveal_msg_def ext_of_out_png open_rgb_def extract_white_stego
          decrypt_cipher_def b64decode_white_stego del: replicate.simps append.simps)
  moreover have "reveal_msg (store_black(out_png \<mapsto> (PNG, stego_black)))
          out_png [112, 119] = Inl (DecryptionFailed Base64Error)"
    by (simp add: reveal_msg_def ext_of_out_png open_rgb_def extract_black_stego
          decrypt_cipher_def b64decode_truncated)
  ultimately show ?thesis
    by (simp add: hide_white10 [OF output_path_out_png] hide_black10)
qed

lemma aligned_black_stego: "aligned_chars stego_black = [85, 97, 116, 120] @ replicate 33 0"
  by code_simp

text \<open>
  Claim C2, evaluated where it fails. In the stego image of \<^verbatim>\<open>ab#\<close> the collected bits,
  read eight at a time, are the four characters \<^verbatim>\<open>Uatx\<close> and then zero bytes, so an
  extractor that looks for the sentinel after every eight bits returns \<^verbatim>\<open>Uatx\<close>. The
  loop of \<^verbatim>\<open>reveal_msg\<close> tests the last eight bits after every pixel, that is after
  every three bits: it stops after 39 bits, on bits 31 to 38, and is left with \<^verbatim>\<open>Uat\<close>.
\<close>

theorem sentinel_found_off_boundary:
  "aligned_chars stego_black = [85, 97, 116, 120] @ replicate 33 0
   \<and> spec_extract stego_black = Some [85, 97, 116, 120]
   \<and> extract_cipher stego_black = [85, 97, 116]"
proof -
  have "spec_extract stego_black = Some [85, 97, 116, 120]"
    unfolding spec_extract_def aligned_black_stego by code_simp
  then show ?thesis
    by (simp only: aligned_black_stego extract_black_stego simp_thms)
qed

lemma aligned_crafted: "aligned_chars crafted11 = [87, 75, 65, 61]"
  by code_simp

lemma extract_crafted: "extract_cipher crafted11 = [87, 75, 65, 61]"
  by code_simp

lemma decrypt_hi_pw: "decrypt_cipher [87, 75, 65, 61] [112, 119] = Inr [104, 105]"
proof -
  have b: "b64decode [87, 75, 65, 61] = Inr [0x58, 0xA0]"
    by code_simp
  have x: "xor_stream [0x58, 0xA0]
    [0x30, 0xc9, 0x52, 0xfa, 0xb1, 0x22, 0xc3, 0xf9, 0x75, 0x9f, 0x02, 0xa6,
     0xd9, 0x5c, 0x37, 0x58, 0xb2, 0x46, 0xb4, 0xfe, 0xe2, 0x39, 0x95, 0x7b,
     0x2d, 0x4f, 0xee, 0x46, 0xe2, 0x61, 0x70, 0xc4] = [0x68, 0x69]"
    by code_simp
  have u: "utf8_decode [0x68, 0x69] = Inr [104, 105]"
    by (simp add: is_cont_def)
  show ?thesis
    unfolding decrypt_cipher_def b by (simp add: py_xor_pw x u)
qed

text \<open>
  Claim C3, evaluated where it fails. The 11 by 1 image holds no zero byte on an
  8-bit boundary: its 33 low bits read as the four characters \<^verbatim>\<open>WKA=\<close> and one bit
  over. \<^verbatim>\<open>reveal_msg\<close> runs through the whole image, decodes what it collected and
  returns the string \<^verbatim>\<open>hi\<close>; there is no test for a scan that found no sentinel.
\<close>

theorem no_sentinel_returns_string:
  "spec_extract crafted11 = None
   \<and> \<not> list_ex (\<lambda>c. c = 0) (aligned_chars crafted11)
   \<and> reveal_msg store_crafted src_png [112, 119] = Inr [104, 105]"
proof -
  have "reveal_msg store_crafted src_png [112, 119] = Inr [104, 105]"
    by (simp add: reveal_msg_def ext_of_src_png open_rgb_def store_crafted_def
          extract_crafted decrypt_hi_pw)
  then show ?thesis
    unfolding spec_extract_def aligned_crafted by simp
qed

theorem embed_changes_only_lsb_prefix_witness:
  "hide_msg store0 src_png out_png [104, 105] [112, 119] =
      (Inr out_png, store0(out_png \<mapsto> (PNG, embed (frame_bits [87, 75, 65, 61]) white10)))
   \<and> open_rgb store0 src_png = Inr white10
   \<and> encrypt_msg [104, 105] [112, 119] = Inr [87, 75, 65, 61]
   \<and> (\<exists>img'. (store0(out_png \<mapsto> (PNG, embed (frame_bits [87, 75, 65, 61]) white10))) out_png
                 = Some (PNG, img')
          \<and> width img' = width white10 \<and> height img' = height white10
          \<and> (\<forall>n < width white10 * height white10 * 3.
                (\<forall>k. 0 < k \<longrightarrow> bit (channel img' n) k = bit (channel white10 n) k)
              \<and> (n < length (frame_bits [87, 75, 65, 61]) \<longrightarrow>
                    bit (channel img' n) 0 = frame_bits [87, 75, 65, 61] ! n)
              \<and> (length (frame_bits [87, 75, 65, 61]) \<le> n \<longrightarrow>
                    channel img' n = channel white10 n)))"
  using embed_changes_only_lsb_prefix
          [OF hide_white10 [OF output_path_out_png] open_store0 encrypt_hi_pw]
        hide_white10 [OF output_path_out_png] open_store0 encrypt_hi_pw
  by blast

theorem output_is_png_witness:
  "hide_msg store0 src_png out_jpg [104, 105] [112, 119] =
      (Inr out_jpg, store0(out_jpg \<mapsto> (PNG, embed (frame_bits [87, 75, 65, 61]) white10)))
   \<and> (\<exists>img'. (store0(out_jpg \<mapsto> (PNG, embed (frame_bits [87, 75, 65, 61]) white10))) out_jpg
                 = Some (PNG, img'))
   \<and> ext_of out_jpg \<in> IMAGE_EXTS
   \<and> hide_msg store0 src_png out_txt [104, 105] [112, 119] =
      (Inr out_png, store0(out_png \<mapsto> (PNG, embed (frame_bits [87, 75, 65, 61]) white10)))
   \<and> ext_of out_txt \<notin> IMAGE_EXTS
   \<and> out_png = out_txt\<lparr>name :=
        take (length (name out_txt) - length (suffix out_txt)) (name out_txt) @ ''.png''\<rparr>"
  using output_is_png [OF hide_white10 [OF output_path_out_jpg]]
        output_is_png [OF hide_white10 [OF output_path_out_txt]]
        hide_white10 [OF output_path_out_jpg] hide_white10 [OF output_path_out_txt]
        ext_of_out_jpg ext_of_out_txt
  by simp

end
